theory Spec2Isabelle
  imports Main "HOL-Library.Word"
begin

section \<open>Strings\<close>

text \<open>
  A JavaScript string is a sequence of UTF-16 code units; \<open>s.length\<close> is the number of
  code units. The literals of \<^verbatim>\<open>server.js\<close> are ASCII and are written with \<open>js\<close>.
\<close>

type_synonym cu = "16 word"
type_synonym jsstring = "cu list"

definition js :: "string \<Rightarrow> jsstring" where
  "js s = map of_char s"

text \<open>
  \<open>WhiteSpace\<close> and \<open>LineTerminator\<close> of ECMAScript: the code units that
  \<^verbatim>\<open>String.prototype.trim\<close> strips and that \<^verbatim>\<open>\s\<close> matches.
\<close>

definition line_terminator :: "cu \<Rightarrow> bool" where
  "line_terminator c = (c = 0x0A \<or> c = 0x0D \<or> c = 0x2028 \<or> c = 0x2029)"

definition white_space :: "cu \<Rightarrow> bool" where
  "white_space c =
     (c = 0x09 \<or> c = 0x0B \<or> c = 0x0C \<or> c = 0x20 \<or> c = 0xA0 \<or> c = 0x1680 \<or>
      (0x2000 \<le> c \<and> c \<le> 0x200A) \<or> c = 0x202F \<or> c = 0x205F \<or> c = 0x3000 \<or>
      c = 0xFEFF)"

definition is_space :: "cu \<Rightarrow> bool" where
  "is_space c = (white_space c \<or> line_terminator c)"

definition trim :: "jsstring \<Rightarrow> jsstring" where
  "trim s = rev (dropWhile is_space (rev (dropWhile is_space s)))"

section \<open>Regular expressions\<close>

text \<open>
  The patterns of \<^verbatim>\<open>server.js\<close> are sequences of one-character atoms, each with at most
  one quantifier, and hold one capturing group. \<open>canonicalize\<close> is the case folding of
  the \<^verbatim>\<open>i\<close> flag (without \<^verbatim>\<open>u\<close>) on the atoms these patterns hold: an ASCII
  pattern character matches an input code unit exactly when both have the same ASCII
  upper case; no code unit from 128 on is folded onto an ASCII one.
\<close>

definition canonicalize :: "cu \<Rightarrow> cu" where
  "canonicalize c = (if 0x61 \<le> c \<and> c \<le> 0x7A then c - 0x20 else c)"

datatype atom =
    Lit cu              \<comment> \<open>a pattern character\<close>
  | Dot                 \<comment> \<open>\<^verbatim>\<open>.\<close>: anything but a line terminator\<close>
  | Space               \<comment> \<open>\<^verbatim>\<open>\s\<close>\<close>
  | OneOf "cu list"     \<comment> \<open>\<^verbatim>\<open>[...]\<close>\<close>
  | NoneOf "cu list"    \<comment> \<open>\<^verbatim>\<open>[^...]\<close>\<close>

datatype quant =
    Once                \<comment> \<open>no quantifier\<close>
  | Opt                 \<comment> \<open>\<^verbatim>\<open>?\<close>\<close>
  | Star                \<comment> \<open>\<^verbatim>\<open>*\<close>\<close>
  | Plus                \<comment> \<open>\<^verbatim>\<open>+\<close>\<close>
  | LazyStar            \<comment> \<open>\<^verbatim>\<open>*?\<close>\<close>

text \<open>\<open>Piece g q a\<close>: the atom \<open>a\<close> under the quantifier \<open>q\<close>; \<open>g\<close> says that the piece
  stands inside the capturing parentheses.\<close>

datatype piece = Piece bool quant atom

fun atom_matches :: "bool \<Rightarrow> atom \<Rightarrow> cu \<Rightarrow> bool" where
  "atom_matches ic (Lit a) c = (if ic then canonicalize a = canonicalize c else a = c)"
| "atom_matches ic Dot c = (\<not> line_terminator c)"
| "atom_matches ic Space c = is_space c"
| "atom_matches ic (OneOf as) c =
     (if ic then canonicalize c \<in> set (map canonicalize as) else c \<in> set as)"
| "atom_matches ic (NoneOf as) c =
     (\<not> (if ic then canonicalize c \<in> set (map canonicalize as) else c \<in> set as))"

text \<open>The characters a group piece consumes are the text of the capture.\<close>

fun keep :: "bool \<Rightarrow> cu \<Rightarrow> jsstring \<times> jsstring \<Rightarrow> jsstring \<times> jsstring" where
  "keep g c (cap, rest) = (if g then c # cap else cap, rest)"

text \<open>
  The backtracking matcher at a fixed start: \<open>matcher ic ps s\<close> is the first way, in
  the order in which ECMAScript tries them (a greedy quantifier takes one more character
  first, a lazy one stops first), of matching all of \<open>ps\<close> against a prefix of \<open>s\<close>:
  the capture and the input left after the match; \<open>None\<close> when there is none.
\<close>

fun matcher :: "bool \<Rightarrow> piece list \<Rightarrow> jsstring \<Rightarrow> (jsstring \<times> jsstring) option" where
  "matcher ic [] s = Some ([], s)"
| "matcher ic (Piece g Once a # ps) [] = None"
| "matcher ic (Piece g Once a # ps) (c # cs) =
     (if atom_matches ic a c then map_option (keep g c) (matcher ic ps cs) else None)"
| "matcher ic (Piece g Opt a # ps) [] = matcher ic ps []"
| "matcher ic (Piece g Opt a # ps) (c # cs) =
     (if atom_matches ic a c
      then (case map_option (keep g c) (matcher ic ps cs) of
              Some r \<Rightarrow> Some r
            | None \<Rightarrow> matcher ic ps (c # cs))
      else matcher ic ps (c # cs))"
| "matcher ic (Piece g Star a # ps) [] = matcher ic ps []"
| "matcher ic (Piece g Star a # ps) (c # cs) =
     (if atom_matches ic a c
      then (case map_option (keep g c) (matcher ic (Piece g Star a # ps) cs) of
              Some r \<Rightarrow> Some r
            | None \<Rightarrow> matcher ic ps (c # cs))
      else matcher ic ps (c # cs))"
| "matcher ic (Piece g Plus a # ps) [] = None"
| "matcher ic (Piece g Plus a # ps) (c # cs) =
     (if atom_matches ic a c
      then map_option (keep g c) (matcher ic (Piece g Star a # ps) cs)
      else None)"
| "matcher ic (Piece g LazyStar a # ps) [] = matcher ic ps []"
| "matcher ic (Piece g LazyStar a # ps) (c # cs) =
     (case matcher ic ps (c # cs) of
        Some r \<Rightarrow> Some r
      | None \<Rightarrow>
          (if atom_matches ic a c
           then map_option (keep g c) (matcher ic (Piece g LazyStar a # ps) cs)
           else None))"

text \<open>The search of \<^verbatim>\<open>exec\<close>: the first start, from the left, at which the matcher
  succeeds (the end of the input is the last start tried).\<close>

fun search :: "bool \<Rightarrow> piece list \<Rightarrow> jsstring \<Rightarrow> (jsstring \<times> jsstring) option" where
  "search ic ps [] = matcher ic ps []"
| "search ic ps (c # cs) =
     (case matcher ic ps (c # cs) of
        Some r \<Rightarrow> Some r
      | None \<Rightarrow> search ic ps cs)"

text \<open>A run of pattern characters.\<close>

definition lits :: "jsstring \<Rightarrow> piece list" where
  "lits s = map (\<lambda>c. Piece False Once (Lit c)) s"

section \<open>The extractors\<close>

text \<open>
  \<^verbatim>\<open>new RegExp(`<${tagName}[^>]*>([\s\S]*?)<\\/${tagName}>`, 'i')\<close>: the pattern is
  written in a template literal, where \<^verbatim>\<open>\s\<close> and \<^verbatim>\<open>\S\<close> are the characters
  \<^verbatim>\<open>s\<close> and \<^verbatim>\<open>S\<close> and \<^verbatim>\<open>\\\<close> is one backslash, so the pattern compiled is
  \<^verbatim>\<open><tagName[^>]*>([sS]*?)<\/tagName>\<close>.
\<close>

definition tag_regex :: "jsstring \<Rightarrow> piece list" where
  "tag_regex tagName =
     lits (js ''<'') @ lits tagName @ [Piece False Star (NoneOf (js ''>''))] @ lits (js ''>'') @
     [Piece True LazyStar (OneOf (js ''sS''))] @
     lits (js ''</'') @ lits tagName @ lits (js ''>'')"

definition getTagContent :: "jsstring \<Rightarrow> jsstring \<Rightarrow> jsstring" where
  "getTagContent html tagName =
     (case search True (tag_regex tagName) html of
        Some (cap, rest) \<Rightarrow> trim cap
      | None \<Rightarrow> [])"

text \<open>
  The two patterns of \<open>getMetaContent\<close>, with \<open>attr\<close> the word \<^verbatim>\<open>name\<close> or
  \<^verbatim>\<open>property\<close>:
  \<^verbatim>\<open><meta[^>]*attr=["']${key}["'][^>]*content=["']([^"']*)["'][^>]*>\<close>, flag \<^verbatim>\<open>i\<close>.
\<close>

definition quotes :: jsstring where
  "quotes = [0x22, 0x27]"

definition meta_regex :: "jsstring \<Rightarrow> jsstring \<Rightarrow> piece list" where
  "meta_regex attr key =
     lits (js ''<meta'') @ [Piece False Star (NoneOf (js ''>''))] @
     lits (attr @ js ''='') @ [Piece False Once (OneOf quotes)] @ lits key @
     [Piece False Once (OneOf quotes)] @ [Piece False Star (NoneOf (js ''>''))] @
     lits (js ''content='') @ [Piece False Once (OneOf quotes)] @
     [Piece True Star (NoneOf quotes)] @
     [Piece False Once (OneOf quotes)] @ [Piece False Star (NoneOf (js ''>''))] @
     lits (js ''>'')"

definition getMetaContent :: "jsstring \<Rightarrow> jsstring \<Rightarrow> jsstring" where
  "getMetaContent html key =
     (case search True (meta_regex (js ''name'') key) html of
        Some (cap, rest) \<Rightarrow> cap
      | None \<Rightarrow>
          (case search True (meta_regex (js ''property'') key) html of
             Some (cap, rest) \<Rightarrow> cap
           | None \<Rightarrow> []))"



subsection \<open>The paragraph word counter\<close>

lemma matcher_length:
  "matcher ic ps s = Some (cap, rest) \<Longrightarrow> length rest \<le> length s"
proof (induction ic ps s arbitrary: cap rest rule: matcher.induct)
  case (3 ic g a ps c cs)
  then show ?case by (fastforce split: if_splits)
next
  case (5 ic g a ps c cs)
  then show ?case by (fastforce split: if_splits option.splits)
next
  case (7 ic g a ps c cs)
  then show ?case by (fastforce split: if_splits option.splits)
next
  case (9 ic g a ps c cs)
  then show ?case by (fastforce split: if_splits)
next
  case (11 ic g a ps c cs)
  then show ?case by (fastforce split: if_splits option.splits)
qed auto

lemma matcher_shorter:
  assumes "matcher ic (Piece g q a # ps) s = Some (cap, rest)" and "q = Once \<or> q = Plus"
  shows "length rest < length s"
proof (cases s)
  case Nil
  with assms show ?thesis by auto
next
  case (Cons c cs)
  with assms obtain cap' where "matcher ic ps cs = Some (cap', rest) \<or>
      matcher ic (Piece g Star a # ps) cs = Some (cap', rest)"
    by (fastforce split: if_splits)
  then have "length rest \<le> length cs"
    using matcher_length by blast
  with Cons show ?thesis by simp
qed

lemma search_shorter:
  assumes "search ic (Piece g q a # ps) s = Some (cap, rest)" and "q = Once \<or> q = Plus"
  shows "length rest < length s"
  using assms
proof (induction s)
  case Nil
  then show ?case using matcher_shorter [of ic g q a ps "[]" cap rest] by simp
next
  case (Cons c cs)
  show ?case
  proof (cases "matcher ic (Piece g q a # ps) (c # cs)")
    case None
    with Cons show ?thesis by fastforce
  next
    case (Some r)
    with Cons.prems have "matcher ic (Piece g q a # ps) (c # cs) = Some (cap, rest)"
      by simp
    then show ?thesis using matcher_shorter Cons.prems(2) by blast
  qed
qed

text \<open>\<^verbatim>\<open>.replace(/<[^>]+>/g, ' ')\<close>: every match, from the left, becomes one space.\<close>

definition tag_pattern :: "piece list" where
  "tag_pattern = lits (js ''<'') @ [Piece False Plus (NoneOf (js ''>''))] @ lits (js ''>'')"

lemma tag_pattern_head:
  "tag_pattern = Piece False Once (Lit 0x3C) #
     [Piece False Plus (NoneOf [0x3E]), Piece False Once (Lit 0x3E)]"
  by (simp add: tag_pattern_def lits_def js_def)

function replace_tags :: "jsstring \<Rightarrow> jsstring" where
  "replace_tags [] = []"
| "replace_tags (c # cs) =
     (case matcher False tag_pattern (c # cs) of
        Some (cap, rest) \<Rightarrow> 0x20 # replace_tags rest
      | None \<Rightarrow> c # replace_tags cs)"
  by pat_completeness auto
termination
proof (relation "measure length")
  fix c cs x2 cap rest
  assume "matcher False tag_pattern (c # cs) = Some x2" and "(cap, rest) = x2"
  then have "length rest < length (c # cs)"
    using matcher_shorter [of False False Once "Lit 0x3C" _ "c # cs" cap rest]
    by (simp add: tag_pattern_head)
  then show "(rest, c # cs) \<in> measure length" by simp
qed auto

text \<open>\<^verbatim>\<open>.split(/\s+/)\<close>: \<open>cur\<close> holds, reversed, the piece being read.\<close>

function split_loop :: "jsstring \<Rightarrow> jsstring \<Rightarrow> jsstring list" where
  "split_loop cur [] = [rev cur]"
| "split_loop cur (c # cs) =
     (case matcher False [Piece False Plus Space] (c # cs) of
        Some (cap, rest) \<Rightarrow> rev cur # split_loop [] rest
      | None \<Rightarrow> split_loop (c # cur) cs)"
  by pat_completeness auto
termination
proof (relation "measure (\<lambda>(cur, s). length s)")
  fix cur c cs x2 cap rest
  assume "matcher False [Piece False Plus Space] (c # cs) = Some x2" and "(cap, rest) = x2"
  then have "length rest < length (c # cs)"
    using matcher_shorter [of False False Plus Space "[]" "c # cs" cap rest] by simp
  then show "(([], rest), (cur, c # cs)) \<in> measure (\<lambda>(cur, s). length s)" by simp
qed auto

definition split_ws :: "jsstring \<Rightarrow> jsstring list" where
  "split_ws s = split_loop [] s"

text \<open>\<^verbatim>\<open>/<p[^>]*>(.*?)<\/?p>/gi\<close>\<close>

definition p_regex :: "piece list" where
  "p_regex =
     lits (js ''<p'') @ [Piece False Star (NoneOf (js ''>''))] @ lits (js ''>'') @
     [Piece True LazyStar Dot] @
     lits (js ''<'') @ [Piece False Opt (Lit 0x2F)] @ lits (js ''p>'')"

lemma p_regex_head:
  "p_regex = Piece False Once (Lit 0x3C) # tl p_regex"
  by (simp add: p_regex_def lits_def js_def)

text \<open>
  The \<^verbatim>\<open>while\<close> loop over \<^verbatim>\<open>regex.exec(html)\<close>: \<open>s\<close> is the input from
  \<^verbatim>\<open>lastIndex\<close> on.
\<close>

function count_loop :: "jsstring \<Rightarrow> nat \<Rightarrow> nat" where
  "count_loop s wordCount =
     (case search True p_regex s of
        None \<Rightarrow> wordCount
      | Some (cap, rest) \<Rightarrow>
          (let text = replace_tags cap;
               words = filter (\<lambda>w. w \<noteq> []) (split_ws (trim text))
           in count_loop rest (wordCount + length words)))"
  by pat_completeness auto
termination
proof (relation "measure (\<lambda>(s, n). length s)")
  fix s :: jsstring and wordCount :: nat and x2 cap rest x xa
  assume "search True p_regex s = Some x2" and "(cap, rest) = x2"
  then have "search True (Piece False Once (Lit 0x3C) # tl p_regex) s = Some (cap, rest)"
    using p_regex_head by simp
  then have "length rest < length s"
    using search_shorter by blast
  then show "((rest, wordCount + length xa), (s, wordCount)) \<in> measure (\<lambda>(s, n). length s)"
    by simp
qed auto

declare count_loop.simps [simp del]

definition countWordsInPTags :: "jsstring \<Rightarrow> nat" where
  "countWordsInPTags html = count_loop html 0"

subsection \<open>The title with fallbacks\<close>

definition getDocumentTitle :: "jsstring \<Rightarrow> jsstring" where
  "getDocumentTitle html =
     (let titleTag = getTagContent html (js ''title'') in
      if titleTag \<noteq> [] then titleTag
      else let ogTitle = getMetaContent html (js ''og:title'') in
        if ogTitle \<noteq> [] then ogTitle
        else getMetaContent html (js ''title''))"

section \<open>The module's top level\<close>

text \<open>
  Lines 81 to 83 of \<^verbatim>\<open>server.js\<close> stand at module scope, under the comment
  \<^verbatim>\<open>// in handleAnalysis:\<close>:
  \<^verbatim>\<open>const title = getDocumentTitle(html);\<close>
  \<^verbatim>\<open>const metaDescription = getMetaContent(html, 'description');\<close>
  The module declares no \<^verbatim>\<open>html\<close>, so the identifier resolves to a property of the
  global object: \<open>global_html\<close> is its value, \<open>None\<close> when the global object has no such
  property (Node.js defines none), and reading it then throws a ReferenceError.
\<close>

datatype js_error = ReferenceError jsstring

definition module_top :: "jsstring option \<Rightarrow> js_error + jsstring \<times> jsstring" where
  "module_top global_html =
     (case global_html of
        None \<Rightarrow> Inl (ReferenceError (js ''html is not defined''))
      | Some html \<Rightarrow>
          (let title = getDocumentTitle html;
               metaDescription = getMetaContent html (js ''description'')
           in Inr (title, metaDescription)))"

section \<open>The analysis request\<close>

text \<open>
  \<^verbatim>\<open>new URL\<close>, \<^verbatim>\<open>fetch\<close> and \<^verbatim>\<open>response.text()\<close> belong to the platform: the
  environment gives what each of them does. \<open>Throws m\<close> is an exception whose
  \<^verbatim>\<open>message\<close> is \<open>m\<close> (\<open>None\<close> when the thrown value has none); \<open>parse_url\<close> returns
  the \<^verbatim>\<open>protocol\<close> of the parsed URL.
\<close>

datatype 'a outcome = Throws "jsstring option" | Returns 'a

record response =
  status :: int
  body :: "jsstring outcome"

record env =
  parse_url :: "jsstring \<Rightarrow> jsstring outcome"
  fetch :: "jsstring \<Rightarrow> response outcome"

record analysis =
  statusCode :: int
  metaTitle :: jsstring
  metaTitleLength :: nat
  metaDescription :: jsstring
  metaDescriptionLength :: nat
  wordCountInPTags :: nat

datatype payload = Analysis analysis | Error jsstring

text \<open>\<^verbatim>\<open>err.message || 'Failed to fetch or process the URL.'\<close>\<close>

definition error_message :: "jsstring option \<Rightarrow> jsstring" where
  "error_message m =
     (case m of
        None \<Rightarrow> js ''Failed to fetch or process the URL.''
      | Some msg \<Rightarrow> if msg = [] then js ''Failed to fetch or process the URL.'' else msg)"

text \<open>Lines 107 to 118: the object built from the page's text and status.\<close>

definition analysis_of :: "int \<Rightarrow> jsstring \<Rightarrow> analysis" where
  "analysis_of st html =
     (let title = getTagContent html (js ''title'');
          metaDescription = getMetaContent html (js ''description'')
      in \<lparr> statusCode = st,
           metaTitle = title,
           metaTitleLength = length title,
           metaDescription = metaDescription,
           metaDescriptionLength = length metaDescription,
           wordCountInPTags = countWordsInPTags html \<rparr>)"

text \<open>
  \<open>handleAnalysis\<close> returns the URLs it fetched and what \<open>respond\<close> returned: every
  path through the function calls \<open>respond\<close> once, \<open>respond\<close> itself taken not to
  throw. The \<^verbatim>\<open>await\<close>s run in sequence; an exception of \<^verbatim>\<open>new URL\<close>, of
  \<^verbatim>\<open>fetch\<close> or of \<^verbatim>\<open>response.text()\<close> goes to the \<^verbatim>\<open>catch\<close> clause.
\<close>

definition handleAnalysis :: "env \<Rightarrow> jsstring \<Rightarrow> (payload \<Rightarrow> 'r) \<Rightarrow> jsstring list \<times> 'r" where
  "handleAnalysis e targetUrl respond =
     (case parse_url e targetUrl of
        Throws m \<Rightarrow> ([], respond (Error (error_message m)))
      | Returns protocol \<Rightarrow>
          if protocol \<notin> set [js ''http:'', js ''https:'']
          then ([], respond (Error (js ''Invalid protocol; only http and https are supported.'')))
          else
            (case fetch e targetUrl of
               Throws m \<Rightarrow> ([targetUrl], respond (Error (error_message m)))
             | Returns r \<Rightarrow>
                 (case body r of
                    Throws m \<Rightarrow> ([targetUrl], respond (Error (error_message m)))
                  | Returns html \<Rightarrow>
                      ([targetUrl], respond (Analysis (analysis_of (status r) html))))))"

section \<open>The server\<close>

text \<open>
  A request as the listener reads it: the method (\<open>req_method\<close>), the path and
  \<^verbatim>\<open>searchParams.get('url')\<close> (\<open>None\<close> for \<^verbatim>\<open>null\<close>). A reply on the
  \<^verbatim>\<open>/analyze\<close> route is a status code and the object written as JSON; every other
  request goes to the static files.
\<close>

record request =
  req_method :: jsstring
  pathname :: jsstring
  url_param :: "jsstring option"

datatype reply = Json nat payload | Static jsstring

definition server :: "env \<Rightarrow> request \<Rightarrow> reply" where
  "server e req =
     (if req_method req = js ''GET'' \<and> pathname req = js ''/analyze''
      then
        (case url_param req of
           None \<Rightarrow> Json 400 (Error (js ''Missing url parameter.''))
         | Some target \<Rightarrow>
             if target = [] then Json 400 (Error (js ''Missing url parameter.''))
             else snd (handleAnalysis e target (\<lambda>data. Json 200 data)))
      else Static (pathname req))"

section \<open>What a pattern matches\<close>

text \<open>
  The meaning of a pattern, stated without the matcher: each piece takes a run of
  characters that its atom matches, of a length that its quantifier allows, and the
  capture is what the pieces in the group took.
\<close>

fun count_ok :: "quant \<Rightarrow> nat \<Rightarrow> bool" where
  "count_ok Once n = (n = 1)"
| "count_ok Opt n = (n \<le> 1)"
| "count_ok Star n = True"
| "count_ok Plus n = (1 \<le> n)"
| "count_ok LazyStar n = True"

fun pattern_matches :: "bool \<Rightarrow> piece list \<Rightarrow> jsstring \<Rightarrow> jsstring \<Rightarrow> bool" where
  "pattern_matches ic [] w cap = (w = [] \<and> cap = [])"
| "pattern_matches ic (Piece g q a # ps) w cap =
     (\<exists>u v cap'. w = u @ v \<and> list_all (atom_matches ic a) u \<and> count_ok q (length u) \<and>
        cap = (if g then u else []) @ cap' \<and> pattern_matches ic ps v cap')"

declare pattern_matches.simps(2) [simp del]




text \<open>
  The tags that end a paragraph span, \<^verbatim>\<open><p>\<close> and \<^verbatim>\<open></p>\<close> in either case:
  \<open>terminator_at s\<close> says that \<open>s\<close> starts with one, and \<open>terminator_free inner rest\<close>
  that none starts inside \<open>inner\<close> when \<open>rest\<close> follows it.
\<close>

definition terminator_at :: "jsstring \<Rightarrow> bool" where
  "terminator_at s =
     (map canonicalize (take 3 s) = map canonicalize (js ''<p>'') \<or>
      map canonicalize (take 4 s) = map canonicalize (js ''</p>''))"

fun terminator_free :: "jsstring \<Rightarrow> jsstring \<Rightarrow> bool" where
  "terminator_free [] rest = True"
| "terminator_free (c # cs) rest = (\<not> terminator_at (c # cs @ rest) \<and> terminator_free cs rest)"

text \<open>
  The pattern takes every text \<^verbatim>\<open><p\<close>, in either case, followed by characters other
  than \<^verbatim>\<open>>\<close> and by \<^verbatim>\<open>>\<close> for an opening tag (\<^verbatim>\<open><p class=x>\<close>, and
  \<^verbatim>\<open><pre>\<close> as well): \<open>opening_at s\<close> says that \<open>s\<close> starts with \<^verbatim>\<open><p\<close>,
  and \<open>opening_free inner rest\<close> that no \<^verbatim>\<open><p\<close> starts inside \<open>inner\<close> when
  \<open>rest\<close> follows it.
\<close>

definition opening_at :: "jsstring \<Rightarrow> bool" where
  "opening_at s = (map canonicalize (take 2 s) = map canonicalize (js ''<p''))"

fun opening_free :: "jsstring \<Rightarrow> jsstring \<Rightarrow> bool" where
  "opening_free [] rest = True"
| "opening_free (c # cs) rest = (\<not> opening_at (c # cs @ rest) \<and> opening_free cs rest)"

section \<open>Properties of the matcher\<close>

subsection \<open>The matcher and the meaning of patterns\<close>

lemma pm_skip:
  assumes "count_ok q 0" and "pattern_matches ic ps w cap"
  shows "pattern_matches ic (Piece g q a # ps) w cap"
proof -
  have "w = [] @ w \<and> list_all (atom_matches ic a) [] \<and> count_ok q (length ([]::jsstring)) \<and>
      cap = (if g then [] else []) @ cap \<and> pattern_matches ic ps w cap"
    using assms by simp
  then show ?thesis unfolding pattern_matches.simps by blast
qed

lemma pm_one:
  assumes "atom_matches ic a c" and "count_ok q 1" and "pattern_matches ic ps w cap"
  shows "pattern_matches ic (Piece g q a # ps) (c # w) (if g then c # cap else cap)"
proof -
  have "c # w = [c] @ w \<and> list_all (atom_matches ic a) [c] \<and> count_ok q (length [c]) \<and>
      (if g then c # cap else cap) = (if g then [c] else []) @ cap \<and> pattern_matches ic ps w cap"
    using assms by simp
  then show ?thesis unfolding pattern_matches.simps by blast
qed

lemma pm_more:
  assumes "atom_matches ic a c" and "q = Star \<or> q = Plus \<or> q = LazyStar"
    and "pattern_matches ic (Piece g q' a # ps) w cap"
  shows "pattern_matches ic (Piece g q a # ps) (c # w) (if g then c # cap else cap)"
proof -
  from assms(3) obtain u v cap' where w: "w = u @ v" and u: "list_all (atom_matches ic a) u"
    and cap: "cap = (if g then u else []) @ cap'" and rest: "pattern_matches ic ps v cap'"
    unfolding pattern_matches.simps by blast
  from assms(2) have "count_ok q (length (c # u))" by auto
  then have "c # w = (c # u) @ v \<and> list_all (atom_matches ic a) (c # u) \<and>
      count_ok q (length (c # u)) \<and>
      (if g then c # cap else cap) = (if g then c # u else []) @ cap' \<and>
      pattern_matches ic ps v cap'"
    using w u cap rest assms(1) by simp
  then show ?thesis unfolding pattern_matches.simps by blast
qed

lemma keep_Some:
  "map_option (keep g c) r = Some (cap, rest) \<longleftrightarrow>
     (\<exists>cap0. r = Some (cap0, rest) \<and> cap = (if g then c # cap0 else cap0))"
  by (cases r) auto

lemma first_Some:
  "(case x of None \<Rightarrow> y | Some r \<Rightarrow> Some r) = Some z \<Longrightarrow> x \<noteq> None \<Longrightarrow> x = Some z"
  by (cases x) auto

lemma first_None:
  "(case x of None \<Rightarrow> y | Some r \<Rightarrow> Some r) = Some z \<Longrightarrow> x = None \<Longrightarrow> y = Some z"
  by simp

lemma matcher_sound:
  "matcher ic ps s = Some (cap, rest) \<Longrightarrow> \<exists>w. s = w @ rest \<and> pattern_matches ic ps w cap"
proof (induction ic ps s arbitrary: cap rest rule: matcher.induct)
  case (1 ic s)
  then show ?case by simp
next
  case (2 ic g a ps)
  then show ?case by simp
next
  case (3 ic g a ps c cs)
  let ?X = "map_option (keep g c) (matcher ic ps cs)"
  from "3.prems" have eq: "(if atom_matches ic a c then ?X else None) = Some (cap, rest)"
    by (simp only: matcher.simps)
  then have ok: "atom_matches ic a c" by (cases "atom_matches ic a c") simp_all
  with eq have "?X = Some (cap, rest)" by (simp only: if_True)
  then obtain cap0 where m: "matcher ic ps cs = Some (cap0, rest)"
    and cap: "cap = (if g then c # cap0 else cap0)"
    unfolding keep_Some by blast
  from "3.IH" [OF ok m] obtain w where "cs = w @ rest" "pattern_matches ic ps w cap0" by blast
  then have "c # cs = (c # w) @ rest \<and> pattern_matches ic (Piece g Once a # ps) (c # w) cap"
    using pm_one [OF ok, of Once ps w cap0 g] cap by simp
  then show ?case by blast
next
  case (4 ic g a ps)
  then obtain w where "[] = w @ rest" "pattern_matches ic ps w cap" by fastforce
  then show ?case using pm_skip [of Opt] by fastforce
next
  case (5 ic g a ps c cs)
  let ?X = "map_option (keep g c) (matcher ic ps cs)"
  let ?M = "matcher ic ps (c # cs)"
  from "5.prems" have eq: "(if atom_matches ic a c
      then (case ?X of None \<Rightarrow> ?M | Some r \<Rightarrow> Some r) else ?M) = Some (cap, rest)"
    by (simp only: matcher.simps)
  show ?case
  proof (cases "atom_matches ic a c")
    case ok: True
    with eq have eq': "(case ?X of None \<Rightarrow> ?M | Some r \<Rightarrow> Some r) = Some (cap, rest)"
      by (simp only: if_True)
    show ?thesis
    proof (cases "?X = None")
      case True
      from first_None [OF eq' True] have m: "?M = Some (cap, rest)" .
      from "5.IH"(2) [OF ok True m] obtain w where "c # cs = w @ rest"
        "pattern_matches ic ps w cap" by blast
      then show ?thesis using pm_skip [of Opt] by fastforce
    next
      case False
      from first_Some [OF eq' False] have "?X = Some (cap, rest)" .
      then obtain cap0 where m: "matcher ic ps cs = Some (cap0, rest)"
        and cap: "cap = (if g then c # cap0 else cap0)"
        unfolding keep_Some by blast
      from "5.IH"(1) [OF ok m] obtain w where "cs = w @ rest" "pattern_matches ic ps w cap0"
        by blast
      then have "c # cs = (c # w) @ rest \<and> pattern_matches ic (Piece g Opt a # ps) (c # w) cap"
        using pm_one [OF ok, of Opt ps w cap0 g] cap by simp
      then show ?thesis by blast
    qed
  next
    case False
    with eq have m: "?M = Some (cap, rest)" by (simp only: if_False)
    from "5.IH"(3) [OF False m] obtain w where "c # cs = w @ rest"
      "pattern_matches ic ps w cap" by blast
    then show ?thesis using pm_skip [of Opt] by fastforce
  qed
next
  case (6 ic g a ps)
  then obtain w where "[] = w @ rest" "pattern_matches ic ps w cap" by fastforce
  then show ?case using pm_skip [of Star] by fastforce
next
  case (7 ic g a ps c cs)
  let ?X = "map_option (keep g c) (matcher ic (Piece g Star a # ps) cs)"
  let ?M = "matcher ic ps (c # cs)"
  from "7.prems" have eq: "(if atom_matches ic a c
      then (case ?X of None \<Rightarrow> ?M | Some r \<Rightarrow> Some r) else ?M) = Some (cap, rest)"
    by (simp only: matcher.simps)
  show ?case
  proof (cases "atom_matches ic a c")
    case ok: True
    with eq have eq': "(case ?X of None \<Rightarrow> ?M | Some r \<Rightarrow> Some r) = Some (cap, rest)"
      by (simp only: if_True)
    show ?thesis
    proof (cases "?X = None")
      case True
      from first_None [OF eq' True] have m: "?M = Some (cap, rest)" .
      from "7.IH"(2) [OF ok True m] obtain w where "c # cs = w @ rest"
        "pattern_matches ic ps w cap" by blast
      then show ?thesis using pm_skip [of Star] by fastforce
    next
      case False
      from first_Some [OF eq' False] have "?X = Some (cap, rest)" .
      then obtain cap0 where m: "matcher ic (Piece g Star a # ps) cs = Some (cap0, rest)"
        and cap: "cap = (if g then c # cap0 else cap0)"
        unfolding keep_Some by blast
      from "7.IH"(1) [OF ok m] obtain w where "cs = w @ rest"
        "pattern_matches ic (Piece g Star a # ps) w cap0"
        by blast
      then have "c # cs = (c # w) @ rest \<and>
          pattern_matches ic (Piece g Star a # ps) (c # w) cap"
        using pm_more [OF ok, of Star g _ ps w cap0] cap by simp
      then show ?thesis by blast
    qed
  next
    case False
    with eq have m: "?M = Some (cap, rest)" by (simp only: if_False)
    from "7.IH"(3) [OF False m] obtain w where "c # cs = w @ rest"
      "pattern_matches ic ps w cap" by blast
    then show ?thesis using pm_skip [of Star] by fastforce
  qed
next
  case (8 ic g a ps)
  then show ?case by simp
next
  case (9 ic g a ps c cs)
  let ?X = "map_option (keep g c) (matcher ic (Piece g Star a # ps) cs)"
  from "9.prems" have eq: "(if atom_matches ic a c then ?X else None) = Some (cap, rest)"
    by (simp only: matcher.simps)
  then have ok: "atom_matches ic a c" by (cases "atom_matches ic a c") simp_all
  with eq have "?X = Some (cap, rest)" by (simp only: if_True)
  then obtain cap0 where m: "matcher ic (Piece g Star a # ps) cs = Some (cap0, rest)"
    and cap: "cap = (if g then c # cap0 else cap0)"
    unfolding keep_Some by blast
  from "9.IH" [OF ok m] obtain w where "cs = w @ rest"
    "pattern_matches ic (Piece g Star a # ps) w cap0"
    by blast
  then have "c # cs = (c # w) @ rest \<and> pattern_matches ic (Piece g Plus a # ps) (c # w) cap"
    using pm_more [OF ok, of Plus g _ ps w cap0] cap by simp
  then show ?case by blast
next
  case (10 ic g a ps)
  then obtain w where "[] = w @ rest" "pattern_matches ic ps w cap" by fastforce
  then show ?case using pm_skip [of LazyStar] by fastforce
next
  case (11 ic g a ps c cs)
  let ?X = "map_option (keep g c) (matcher ic (Piece g LazyStar a # ps) cs)"
  let ?M = "matcher ic ps (c # cs)"
  from "11.prems" have eq: "(case ?M of
      None \<Rightarrow> if atom_matches ic a c then ?X else None | Some r \<Rightarrow> Some r) = Some (cap, rest)"
    by (simp only: matcher.simps)
  show ?case
  proof (cases "?M = None")
    case False
    from first_Some [OF eq False] have m: "?M = Some (cap, rest)" .
    from "11.IH"(1) [OF m] obtain w where "c # cs = w @ rest" "pattern_matches ic ps w cap"
      by blast
    then show ?thesis using pm_skip [of LazyStar] by fastforce
  next
    case True
    from first_None [OF eq True]
    have eq': "(if atom_matches ic a c then ?X else None) = Some (cap, rest)" .
    then have ok: "atom_matches ic a c" by (cases "atom_matches ic a c") simp_all
    with eq' have "?X = Some (cap, rest)" by (simp only: if_True)
    then obtain cap0 where m: "matcher ic (Piece g LazyStar a # ps) cs = Some (cap0, rest)"
      and cap: "cap = (if g then c # cap0 else cap0)"
      unfolding keep_Some by blast
    from "11.IH"(2) [OF True ok m] obtain w where "cs = w @ rest"
      "pattern_matches ic (Piece g LazyStar a # ps) w cap0"
      by blast
    then have "c # cs = (c # w) @ rest \<and>
        pattern_matches ic (Piece g LazyStar a # ps) (c # w) cap"
      using pm_more [OF ok, of LazyStar g _ ps w cap0] cap by simp
    then show ?thesis by blast
  qed
qed








lemma canonicalize_ascii_other:
  assumes "x < 0x41" 
  shows "canonicalize c = x \<longleftrightarrow> c = x"
  using assms unfolding canonicalize_def
  by (auto; unat_arith)

lemma canonicalize_marks:
  "canonicalize 0x3E = 0x3E" "canonicalize 0x22 = 0x22" "canonicalize 0x27 = 0x27"
  "canonicalize 0x2F = 0x2F"
  by (simp_all add: canonicalize_def)

lemma atom_not_gt [simp]: "atom_matches True (NoneOf (js ''>'')) c \<longleftrightarrow> c \<noteq> 0x3E"
  by (simp add: js_def canonicalize_marks canonicalize_ascii_other)


lemma atom_not_quote [simp]: "atom_matches True (NoneOf quotes) c \<longleftrightarrow> c \<notin> set quotes"
  by (simp add: quotes_def canonicalize_marks canonicalize_ascii_other)

lemma atom_slash [simp]: "atom_matches True (Lit 0x2F) c \<longleftrightarrow> c = 0x2F"
  using canonicalize_ascii_other [of "0x2F" c] by (auto simp add: canonicalize_marks)

lemma pm_once:
  "pattern_matches ic (Piece False Once a # ps) w cap \<longleftrightarrow>
     (\<exists>c v. w = c # v \<and> atom_matches ic a c \<and> pattern_matches ic ps v cap)"
proof
  assume "pattern_matches ic (Piece False Once a # ps) w cap"
  then obtain u v where "w = u @ v" "list_all (atom_matches ic a) u" "length u = 1"
    "pattern_matches ic ps v cap"
    unfolding pattern_matches.simps by auto
  moreover from this obtain c where "u = [c]" by (cases u) auto
  ultimately show "\<exists>c v. w = c # v \<and> atom_matches ic a c \<and> pattern_matches ic ps v cap"
    by auto
next
  assume "\<exists>c v. w = c # v \<and> atom_matches ic a c \<and> pattern_matches ic ps v cap"
  then obtain c v where "w = c # v" "atom_matches ic a c" "pattern_matches ic ps v cap"
    by blast
  then show "pattern_matches ic (Piece False Once a # ps) w cap"
    using pm_one [of ic a c Once ps v cap False] by simp
qed

lemma pm_star:
  "pattern_matches ic (Piece False Star a # ps) w cap \<longleftrightarrow>
     (\<exists>u v. w = u @ v \<and> list_all (atom_matches ic a) u \<and> pattern_matches ic ps v cap)"
  by (simp add: pattern_matches.simps)


lemma pm_lazy_group:
  "pattern_matches ic (Piece True LazyStar a # ps) w cap \<longleftrightarrow>
     (\<exists>u v cap'. w = u @ v \<and> list_all (atom_matches ic a) u \<and> cap = u @ cap' \<and>
        pattern_matches ic ps v cap')"
  by (simp add: pattern_matches.simps)

lemma pm_opt:
  "pattern_matches ic (Piece False Opt a # ps) w cap \<longleftrightarrow>
     pattern_matches ic ps w cap \<or>
     (\<exists>c v. w = c # v \<and> atom_matches ic a c \<and> pattern_matches ic ps v cap)"
proof
  assume "pattern_matches ic (Piece False Opt a # ps) w cap"
  then obtain u v where u: "w = u @ v" "list_all (atom_matches ic a) u" "length u \<le> 1"
    "pattern_matches ic ps v cap"
    unfolding pattern_matches.simps by auto
  then consider "u = []" | c where "u = [c]" by (cases u) auto
  then show "pattern_matches ic ps w cap \<or>
     (\<exists>c v. w = c # v \<and> atom_matches ic a c \<and> pattern_matches ic ps v cap)"
    using u by cases auto
next
  assume "pattern_matches ic ps w cap \<or>
     (\<exists>c v. w = c # v \<and> atom_matches ic a c \<and> pattern_matches ic ps v cap)"
  then show "pattern_matches ic (Piece False Opt a # ps) w cap"
    using pm_skip [of Opt ic ps w cap False a] pm_one [of ic a _ Opt ps _ cap False]
    by auto
qed

lemma pm_lits:
  "pattern_matches True (lits k @ ps) w cap \<longleftrightarrow>
     (\<exists>u v. w = u @ v \<and> map canonicalize u = map canonicalize k \<and>
        pattern_matches True ps v cap)"
proof (induction k arbitrary: w)
  case Nil
  then show ?case by (simp add: lits_def)
next
  case (Cons a k)
  have "pattern_matches True (lits (a # k) @ ps) w cap \<longleftrightarrow>
      (\<exists>c v. w = c # v \<and> canonicalize a = canonicalize c \<and>
         pattern_matches True (lits k @ ps) v cap)"
    using pm_once [of True "Lit a" "lits k @ ps" w cap] by (simp add: lits_def)
  also have "\<dots> \<longleftrightarrow> (\<exists>c u v. w = c # u @ v \<and> canonicalize a = canonicalize c \<and>
      map canonicalize u = map canonicalize k \<and> pattern_matches True ps v cap)"
    unfolding Cons.IH by blast
  also have "\<dots> \<longleftrightarrow> (\<exists>u v. w = u @ v \<and> map canonicalize u = map canonicalize (a # k) \<and>
      pattern_matches True ps v cap)"
  proof
    assume "\<exists>c u v. w = c # u @ v \<and> canonicalize a = canonicalize c \<and>
      map canonicalize u = map canonicalize k \<and> pattern_matches True ps v cap"
    then obtain c u v where "w = (c # u) @ v"
      "map canonicalize (c # u) = map canonicalize (a # k)" "pattern_matches True ps v cap"
      by auto
    then show "\<exists>u v. w = u @ v \<and> map canonicalize u = map canonicalize (a # k) \<and>
      pattern_matches True ps v cap"
      by blast
  next
    assume "\<exists>u v. w = u @ v \<and> map canonicalize u = map canonicalize (a # k) \<and>
      pattern_matches True ps v cap"
    then obtain u v where u: "w = u @ v" "map canonicalize u = map canonicalize (a # k)"
      "pattern_matches True ps v cap"
      by blast
    then obtain c u' where "u = c # u'" by (cases u) auto
    with u show "\<exists>c u v. w = c # u @ v \<and> canonicalize a = canonicalize c \<and>
      map canonicalize u = map canonicalize k \<and> pattern_matches True ps v cap"
      by auto
  qed
  finally show ?case .
qed

lemma pm_lits_end:
  "pattern_matches True (lits k) w cap \<longleftrightarrow>
     map canonicalize w = map canonicalize k \<and> cap = []"
  using pm_lits [of k "[]" w cap] by auto

lemma all_not_gt: "list_all (atom_matches True (NoneOf (js ''>''))) u \<longleftrightarrow> 0x3E \<notin> set u"
  by (induction u) (simp_all del: atom_matches.simps)


lemma canonicalize_gt: "map canonicalize u = map canonicalize (js ''>'') \<longleftrightarrow> u = js ''>''"
proof -
  have "map canonicalize u = [0x3E] \<longleftrightarrow> u = [0x3E]"
    by (cases u) (auto simp add: canonicalize_ascii_other)
  then show ?thesis by (simp add: js_def canonicalize_marks)
qed



lemma all_dot: "list_all (atom_matches True Dot) u \<longleftrightarrow> \<not> list_ex line_terminator u"
  by (induction u) auto

lemma p_regex_nested:
  "pattern_matches True p_regex w cap \<longleftrightarrow>
     (\<exists>m r1. w = m @ r1 \<and> map canonicalize m = map canonicalize (js ''<p'') \<and>
      (\<exists>a r2. r1 = a @ r2 \<and> 0x3E \<notin> set a \<and>
      (\<exists>g r3. r2 = g @ r3 \<and> g = js ''>'' \<and>
      (\<exists>x r4 cap'. r3 = x @ r4 \<and> \<not> list_ex line_terminator x \<and> cap = x @ cap' \<and>
      (\<exists>l r5. r4 = l @ r5 \<and> map canonicalize l = map canonicalize (js ''<'') \<and>
        (map canonicalize r5 = map canonicalize (js ''p>'') \<and> cap' = [] \<or>
         (\<exists>c v. r5 = c # v \<and> c = 0x2F \<and>
            map canonicalize v = map canonicalize (js ''p>'') \<and> cap' = [])))))))"
  unfolding p_regex_def
  by (simp only: append_Cons append_Nil pm_lits pm_star pm_opt pm_lazy_group pm_lits_end
      atom_slash all_not_gt all_dot canonicalize_gt)

lemma p_regex_shape:
  assumes "pattern_matches True p_regex w cap"
  shows "\<exists>m a t. w = m @ a @ 0x3E # cap @ t \<and>
           map canonicalize m = map canonicalize (js ''<p'') \<and> 0x3E \<notin> set a \<and>
           \<not> list_ex line_terminator cap \<and> terminator_at (t @ post)"
proof -
  from assms obtain m a x l r5 where w: "w = m @ a @ js ''>'' @ x @ l @ r5"
    and m: "map canonicalize m = map canonicalize (js ''<p'')" and a: "0x3E \<notin> set a"
    and x: "\<not> list_ex line_terminator x" and cap: "cap = x"
    and l: "map canonicalize l = map canonicalize (js ''<'')"
    and r5: "map canonicalize r5 = map canonicalize (js ''p>'') \<or>
         (\<exists>v. r5 = 0x2F # v \<and> map canonicalize v = map canonicalize (js ''p>''))"
    unfolding p_regex_nested by auto
  from r5 have "terminator_at ((l @ r5) @ post)"
  proof
    assume r: "map canonicalize r5 = map canonicalize (js ''p>'')"
    from l r have "length l = 1" "length r5 = 2"
      using map_eq_imp_length_eq [of canonicalize l canonicalize "js ''<''"]
        map_eq_imp_length_eq [of canonicalize r5 canonicalize "js ''p>''"]
      by (simp_all add: js_def)
    then have "take 3 ((l @ r5) @ post) = l @ r5" by simp
    moreover have "map canonicalize (l @ r5) = map canonicalize (js ''<p>'')"
      using l r by (simp add: js_def)
    ultimately show ?thesis by (simp only: terminator_at_def) simp
  next
    assume "\<exists>v. r5 = 0x2F # v \<and> map canonicalize v = map canonicalize (js ''p>'')"
    then obtain v where r: "r5 = 0x2F # v" and v: "map canonicalize v = map canonicalize (js ''p>'')"
      by blast
    from l v have "length l = 1" "length v = 2"
      using map_eq_imp_length_eq [of canonicalize l canonicalize "js ''<''"]
        map_eq_imp_length_eq [of canonicalize v canonicalize "js ''p>''"]
      by (simp_all add: js_def)
    then have "take 4 ((l @ r5) @ post) = l @ r5" by (simp add: r)
    moreover have "map canonicalize (l @ r5) = map canonicalize (js ''</p>'')"
      using l v r by (simp add: js_def canonicalize_marks)
    ultimately show ?thesis by (simp only: terminator_at_def) simp
  qed
  with w m a x cap have "w = m @ a @ 0x3E # cap @ (l @ r5) \<and>
           map canonicalize m = map canonicalize (js ''<p'') \<and> 0x3E \<notin> set a \<and>
           \<not> list_ex line_terminator cap \<and> terminator_at ((l @ r5) @ post)"
    by (simp add: js_def)
  then show ?thesis by blast
qed

lemma first_split:
  "x \<notin> set u \<Longrightarrow> x \<notin> set u' \<Longrightarrow> u @ x # r = u' @ x # r' \<Longrightarrow> u = u' \<and> r = r'"
proof (induction u arbitrary: u')
  case Nil
  then show ?case by (cases u') auto
next
  case (Cons z zs)
  then show ?case by (cases u') auto
qed

lemma terminator_free_drop:
  "terminator_free (pre @ c # cs) rest \<Longrightarrow> \<not> terminator_at (c # cs @ rest)"
  by (induction pre) simp_all


lemma opening_free_drop:
  "opening_free (pre @ c # cs) rest \<Longrightarrow> \<not> opening_at (c # cs @ rest)"
  by (induction pre) simp_all

lemma folded_has_not:
  assumes "map canonicalize u = map canonicalize s" and "x \<notin> set s" and "x < 0x41"
  shows "x \<notin> set u"
proof
  assume "x \<in> set u"
  then have "canonicalize x \<in> set (map canonicalize u)" by simp
  then have "canonicalize x \<in> set (map canonicalize s)" using assms(1) by simp
  then obtain y where y: "y \<in> set s" "canonicalize y = canonicalize x" by auto
  have "canonicalize x = x" using canonicalize_ascii_other [OF assms(3), of x] by simp
  with y have "y = x" using canonicalize_ascii_other [OF assms(3), of y] by simp
  with y assms(2) show False by simp
qed

lemma p_span_none:
  assumes P: "0x3E \<notin> set P"
    and newline: "list_ex line_terminator inner"
    and free: "terminator_free inner rest"
  shows "matcher True p_regex (P @ 0x3E # inner @ rest) = None"
proof (rule ccontr)
  let ?s = "P @ 0x3E # inner @ rest"
  assume "matcher True p_regex ?s \<noteq> None"
  then obtain cap rest' where "matcher True p_regex ?s = Some (cap, rest')" by auto
  from matcher_sound [OF this] obtain w where s: "?s = w @ rest'"
    and pm: "pattern_matches True p_regex w cap"
    by blast
  from p_regex_shape [OF pm, of rest'] obtain m a t where w: "w = m @ a @ 0x3E # cap @ t"
    and m: "map canonicalize m = map canonicalize (js ''<p'')" and a: "0x3E \<notin> set a"
    and cap: "\<not> list_ex line_terminator cap" and t: "terminator_at (t @ rest')"
    by blast
  have "0x3E \<notin> set m"
    by (rule folded_has_not [OF m]) (simp_all add: js_def)
  with a have ma: "0x3E \<notin> set (m @ a)" by simp
  from s w have "P @ 0x3E # inner @ rest = (m @ a) @ 0x3E # cap @ t @ rest'" by simp
  from first_split [OF P ma this] have eq: "inner @ rest = cap @ t @ rest'" by simp
  then obtain us where "inner = cap @ us \<and> us @ rest = t @ rest' \<or>
      inner @ us = cap \<and> rest = us @ t @ rest'"
    unfolding append_eq_append_conv2 by blast
  then show False
  proof
    assume A: "inner = cap @ us \<and> us @ rest = t @ rest'"
    show False
    proof (cases us)
      case Nil
      with A newline cap show False by simp
    next
      case (Cons c cs)
      with A free have "\<not> terminator_at (c # cs @ rest)"
        using terminator_free_drop [of cap c cs rest] by simp
      with A Cons t show False by simp
    qed
  next
    assume "inner @ us = cap \<and> rest = us @ t @ rest'"
    with newline cap show False by (auto simp add: list_ex_iff)
  qed
qed

lemma p_match_opening:
  assumes "matcher True p_regex s \<noteq> None"
  shows "opening_at s"
proof -
  from assms obtain cap rest' where "matcher True p_regex s = Some (cap, rest')" by auto
  from matcher_sound [OF this] obtain w where s: "s = w @ rest'"
    and pm: "pattern_matches True p_regex w cap"
    by blast
  from p_regex_shape [OF pm, of rest'] obtain m a t where w: "w = m @ a @ 0x3E # cap @ t"
    and m: "map canonicalize m = map canonicalize (js ''<p'')"
    by blast
  from m have "length m = 2"
    using map_eq_imp_length_eq [of canonicalize m canonicalize "js ''<p''"]
    by (simp add: js_def)
  with s w have "take 2 s = m" by simp
  with m show ?thesis by (simp add: opening_at_def)
qed

lemma search_skip:
  "(\<And>j. j < n \<Longrightarrow> matcher ic ps (drop j s) = None) \<Longrightarrow> n \<le> length s \<Longrightarrow>
     search ic ps s = search ic ps (drop n s)"
proof (induction n arbitrary: s)
  case 0
  then show ?case by simp
next
  case (Suc n)
  then obtain c cs where s: "s = c # cs" by (cases s) auto
  from Suc.prems(1) [of 0] s have "matcher ic ps (c # cs) = None" by simp
  then have "search ic ps s = search ic ps cs" by (simp add: s)
  moreover have "search ic ps cs = search ic ps (drop n cs)"
  proof (rule Suc.IH)
    fix j assume "j < n"
    then show "matcher ic ps (drop j cs) = None"
      using Suc.prems(1) [of "Suc j"] s by simp
  next
    show "n \<le> length cs" using Suc.prems(2) s by simp
  qed
  ultimately show ?case by (simp add: s)
qed








subsection \<open>The request handler\<close>

lemma handleAnalysis_respond:
  "handleAnalysis e u respond =
     (fst (handleAnalysis e u id), respond (snd (handleAnalysis e u id)))"
  by (simp add: handleAnalysis_def split: outcome.splits)

section \<open>The claims\<close>

text \<open>
  C1 (the code departs from it). The claim: for HTML containing
  \<^verbatim>\<open><title>X</title>\<close>, the tag content extractor and the title resolver return \<open>X\<close>
  trimmed. The pattern compiled has the class \<^verbatim>\<open>[sS]\<close> where \<^verbatim>\<open>[\s\S]\<close> was meant,
  so a title is found only when it consists of the letters s and S: for
  \<^verbatim>\<open><title>Hello</title>\<close> both functions return the empty string.
\<close>

theorem getTagContent_title_Hello:
  \<open>getTagContent (js ''<title>Hello</title>'') (js ''title'') = [] \<and>
   getDocumentTitle (js ''<title>Hello</title>'') = []\<close>
  by code_simp

text \<open>
  C2 (the code departs from it). The claim: the pair computed at module scope has no
  effect, and evaluating the module's top level does not fail. Where the global object
  has no property \<^verbatim>\<open>html\<close>, as in Node.js, evaluating line 82 throws a ReferenceError.
\<close>

theorem module_top_throws:
  "module_top None = Inl (ReferenceError (js ''html is not defined''))"
  by (simp add: module_top_def)

text \<open>
  C3 (the code departs from it). The claim: the analysis takes its title from the
  fallback chain of \<open>getDocumentTitle\<close>. \<open>handleAnalysis\<close> calls \<open>getTagContent\<close>
  instead: for a page with an \<^verbatim>\<open>og:title\<close> meta tag and no title tag, the chain gives
  \<^verbatim>\<open>Y\<close> and the analysis an empty title.
\<close>

theorem analysis_title_without_fallback:
  \<open>metaTitle (analysis_of 200 (js ''<meta property="og:title" content="Y">'')) = [] \<and>
   getDocumentTitle (js ''<meta property="og:title" content="Y">'') = js ''Y''\<close>
  by code_simp




text \<open>
  C5 (the code departs from it). The claim, and the doc comment of \<open>getMetaContent\<close>:
  the result is the value of the \<^verbatim>\<open>content\<close> attribute of the first meta tag whose
  \<^verbatim>\<open>name\<close> attribute equals the key. The capture \<^verbatim>\<open>[^"']*\<close> stops at the first quote
  character of either kind: for the tag
  \<^verbatim>\<open><meta name="description" content="it's fine">\<close>, whose content attribute has the
  value \<^verbatim>\<open>it's fine\<close>, the result is \<^verbatim>\<open>it\<close>.
\<close>

theorem getMetaContent_content_with_apostrophe:
  \<open>getMetaContent (js ''<meta name="description" content="it's fine">'') (js ''description'') =
     js ''it'' \<and>
   getMetaContent (js ''<meta name="description" content="it's fine">'') (js ''description'') \<noteq>
     js ''it's fine''\<close>
  by code_simp

text \<open>
  C6. The three test vectors of the paragraph word counter: \<^verbatim>\<open><p>hello world</p>\<close>
  gives 2, \<^verbatim>\<open><p>a <b>b</b> c</p>\<close> gives 3, and a text with no paragraph gives 0. In
  the second, the nested tag does not end the span, whose capture runs to \<^verbatim>\<open></p>\<close>, and
  is stripped: each of \<^verbatim>\<open><b>\<close> and \<^verbatim>\<open></b>\<close> becomes one space before the words are
  split, so that \<^verbatim>\<open><p>a<b>b</b>c</p>\<close>, where only the tags separate the words,
  gives 3 as well.
\<close>

theorem countWordsInPTags_vectors:
  "countWordsInPTags (js ''<p>hello world</p>'') = 2 \<and>
   countWordsInPTags (js ''<p>a <b>b</b> c</p>'') = 3 \<and>
   countWordsInPTags (js ''no paragraphs here'') = 0 \<and>
   search True p_regex (js ''<p>a <b>b</b> c</p>'') = Some (js ''a <b>b</b> c'', []) \<and>
   replace_tags (js ''a <b>b</b> c'') = js ''a  b  c'' \<and>
   filter (\<lambda>w. w \<noteq> []) (split_ws (trim (js ''a  b  c''))) = [js ''a'', js ''b'', js ''c''] \<and>
   countWordsInPTags (js ''<p>a<b>b</b>c</p>'') = 3"
  by code_simp

text \<open>
  C7. Every analysis that \<open>handleAnalysis\<close> responds with has
  \<open>metaTitleLength\<close> equal to the length of \<open>metaTitle\<close> and
  \<open>metaDescriptionLength\<close> equal to the length of \<open>metaDescription\<close>, the length
  of a string being its number of UTF-16 code units (\<^verbatim>\<open>.length\<close>).
\<close>

theorem analysis_lengths:
  assumes "snd (handleAnalysis e u id) = Analysis a"
  shows "metaTitleLength a = length (metaTitle a) \<and>
         metaDescriptionLength a = length (metaDescription a)"
  using assms
  by (auto simp add: handleAnalysis_def analysis_of_def Let_def split: outcome.splits if_splits)

theorem analysis_lengths_witness:
  \<open>snd (handleAnalysis
      \<lparr> parse_url = (\<lambda>u. Returns (js ''https:'')),
        fetch = (\<lambda>u. Returns \<lparr> status = 200,
          body = Returns (js ''<meta name="description" content="'' @ [0xD83D, 0xDE00] @ js ''">'') \<rparr>) \<rparr>
      (js ''https://example.com/'') id) =
     Analysis \<lparr> statusCode = 200, metaTitle = [], metaTitleLength = 0,
       metaDescription = [0xD83D, 0xDE00], metaDescriptionLength = 2, wordCountInPTags = 0 \<rparr> \<and>
   metaTitleLength \<lparr> statusCode = 200, metaTitle = [], metaTitleLength = 0,
       metaDescription = [0xD83D, 0xDE00], metaDescriptionLength = 2, wordCountInPTags = 0 \<rparr> =
     length (metaTitle \<lparr> statusCode = 200, metaTitle = [], metaTitleLength = 0,
       metaDescription = [0xD83D, 0xDE00], metaDescriptionLength = 2, wordCountInPTags = 0 \<rparr>) \<and>
   metaDescriptionLength \<lparr> statusCode = 200, metaTitle = [], metaTitleLength = 0,
       metaDescription = [0xD83D, 0xDE00], metaDescriptionLength = 2, wordCountInPTags = 0 \<rparr> =
     length (metaDescription \<lparr> statusCode = 200, metaTitle = [], metaTitleLength = 0,
       metaDescription = [0xD83D, 0xDE00], metaDescriptionLength = 2, wordCountInPTags = 0 \<rparr>)\<close>
proof -
  have h: \<open>snd (handleAnalysis
      \<lparr> parse_url = (\<lambda>u. Returns (js ''https:'')),
        fetch = (\<lambda>u. Returns \<lparr> status = 200,
          body = Returns (js ''<meta name="description" content="'' @ [0xD83D, 0xDE00] @ js ''">'') \<rparr>) \<rparr>
      (js ''https://example.com/'') id) =
     Analysis \<lparr> statusCode = 200, metaTitle = [], metaTitleLength = 0,
       metaDescription = [0xD83D, 0xDE00], metaDescriptionLength = 2, wordCountInPTags = 0 \<rparr>\<close>
    by code_simp
  show ?thesis
    using h analysis_lengths [OF h] by blast
qed

text \<open>
  C8. When the URL parses and its protocol is neither \<^verbatim>\<open>http:\<close> nor \<^verbatim>\<open>https:\<close>,
  \<open>handleAnalysis\<close> fetches nothing and responds with the error object of the invalid
  protocol. Whatever the URL, it responds with one payload, which is an analysis or an
  error object.
\<close>

theorem handleAnalysis_invalid_protocol:
  assumes "parse_url e targetUrl = Returns protocol"
    and "protocol \<noteq> js ''http:''" and "protocol \<noteq> js ''https:''"
  shows "handleAnalysis e targetUrl respond =
           ([], respond (Error (js ''Invalid protocol; only http and https are supported.''))) \<and>
         (\<exists>fetched d. handleAnalysis e' u' respond = (fetched, respond d))"
  using assms
  by (auto simp add: handleAnalysis_def split: outcome.splits)

theorem handleAnalysis_invalid_protocol_witness:
  \<open>parse_url \<lparr> parse_url = (\<lambda>u. Returns (js ''ftp:'')), fetch = (\<lambda>u. Throws None) \<rparr>
     (js ''ftp://example.com/file'') = Returns (js ''ftp:'') \<and>
   js ''ftp:'' \<noteq> js ''http:'' \<and> js ''ftp:'' \<noteq> js ''https:'' \<and>
   handleAnalysis \<lparr> parse_url = (\<lambda>u. Returns (js ''ftp:'')), fetch = (\<lambda>u. Throws None) \<rparr>
     (js ''ftp://example.com/file'') id =
   ([], Error (js ''Invalid protocol; only http and https are supported.''))\<close>
proof -
  have a: \<open>parse_url \<lparr> parse_url = (\<lambda>u. Returns (js ''ftp:'')), fetch = (\<lambda>u. Throws None) \<rparr>
     (js ''ftp://example.com/file'') = Returns (js ''ftp:'')\<close>
    by simp
  have b: "js ''ftp:'' \<noteq> js ''http:''" by code_simp
  have c: "js ''ftp:'' \<noteq> js ''https:''" by code_simp
  show ?thesis
    using a b c handleAnalysis_invalid_protocol [OF a b c, of id] by simp
qed

text \<open>
  C9 (corrected). The claim: every failure of a \<^verbatim>\<open>GET /analyze\<close> request, a missing
  input included, is answered with status 200. A request without the \<^verbatim>\<open>url\<close> parameter
  is answered with status 400.
\<close>

theorem server_missing_url_counterexample:
  "server \<lparr> parse_url = (\<lambda>u. Throws None), fetch = (\<lambda>u. Throws None) \<rparr>
     \<lparr> req_method = js ''GET'', pathname = js ''/analyze'', url_param = None \<rparr> =
   Json 400 (Error (js ''Missing url parameter.'')) \<and> (400::nat) \<noteq> 200"
  by (simp add: server_def)

text \<open>
  C9 as amended: on the route \<^verbatim>\<open>GET /analyze\<close>, a missing or empty \<^verbatim>\<open>url\<close> parameter
  is answered with status 400 and the error object \<^verbatim>\<open>Missing url parameter.\<close>; every
  other request is answered with status 200 and the payload of \<open>handleAnalysis\<close>, which is
  an error object when the URL does not parse, when its protocol is not http or https,
  when the fetch fails and when reading the body fails.
\<close>

theorem server_analyze_status:
  assumes "req_method req = js ''GET''" and "pathname req = js ''/analyze''"
  shows "((url_param req = None \<or> url_param req = Some []) \<longrightarrow>
            server e req = Json 400 (Error (js ''Missing url parameter.''))) \<and>
         (\<forall>t. url_param req = Some t \<and> t \<noteq> [] \<longrightarrow>
            server e req = Json 200 (snd (handleAnalysis e t id)) \<and>
            (\<forall>m. parse_url e t = Throws m \<longrightarrow>
               server e req = Json 200 (Error (error_message m))) \<and>
            (\<forall>p. parse_url e t = Returns p \<and> p \<noteq> js ''http:'' \<and> p \<noteq> js ''https:'' \<longrightarrow>
               server e req =
                 Json 200 (Error (js ''Invalid protocol; only http and https are supported.''))) \<and>
            (\<forall>p m. parse_url e t = Returns p \<and> (p = js ''http:'' \<or> p = js ''https:'') \<and>
                 fetch e t = Throws m \<longrightarrow>
               server e req = Json 200 (Error (error_message m))) \<and>
            (\<forall>p r m. parse_url e t = Returns p \<and> (p = js ''http:'' \<or> p = js ''https:'') \<and>
                 fetch e t = Returns r \<and> body r = Throws m \<longrightarrow>
               server e req = Json 200 (Error (error_message m))))"
proof -
  have run: "server e req = Json 200 (snd (handleAnalysis e t id))"
    if "url_param req = Some t" and "t \<noteq> []" for t
    using that assms handleAnalysis_respond [of e t "\<lambda>data. Json 200 data"]
    by (simp add: server_def)
  have missing: "server e req = Json 400 (Error (js ''Missing url parameter.''))"
    if "url_param req = None \<or> url_param req = Some []"
    using that assms by (auto simp add: server_def)
  show ?thesis
    using run missing
    by (auto simp add: handleAnalysis_def split: outcome.splits)
qed

theorem server_analyze_status_witness:
  \<open>req_method \<lparr> req_method = js ''GET'', pathname = js ''/analyze'', url_param = Some (js ''nonsense'') \<rparr>
     = js ''GET'' \<and>
   pathname \<lparr> req_method = js ''GET'', pathname = js ''/analyze'', url_param = Some (js ''nonsense'') \<rparr>
     = js ''/analyze'' \<and>
   js ''nonsense'' \<noteq> [] \<and>
   server \<lparr> parse_url = (\<lambda>u. Throws (Some (js ''Invalid URL''))), fetch = (\<lambda>u. Throws None) \<rparr>
     \<lparr> req_method = js ''GET'', pathname = js ''/analyze'', url_param = Some (js ''nonsense'') \<rparr> =
   Json 200 (Error (error_message (Some (js ''Invalid URL''))))\<close>
proof -
  have a: \<open>req_method \<lparr> req_method = js ''GET'', pathname = js ''/analyze'',
      url_param = Some (js ''nonsense'') \<rparr> = js ''GET''\<close>
    by simp
  have b: \<open>pathname \<lparr> req_method = js ''GET'', pathname = js ''/analyze'',
      url_param = Some (js ''nonsense'') \<rparr> = js ''/analyze''\<close>
    by simp
  have c: "js ''nonsense'' \<noteq> []" by (simp add: js_def)
  have d: \<open>url_param \<lparr> req_method = js ''GET'', pathname = js ''/analyze'',
      url_param = Some (js ''nonsense'') \<rparr> = Some (js ''nonsense'')\<close>
    by simp
  have f: \<open>parse_url \<lparr> parse_url = (\<lambda>u. Throws (Some (js ''Invalid URL''))),
      fetch = (\<lambda>u. Throws None) \<rparr> (js ''nonsense'') = Throws (Some (js ''Invalid URL''))\<close>
    by simp
  show ?thesis
    using a b c d f
      server_analyze_status [OF a b,
        of "\<lparr> parse_url = (\<lambda>u. Throws (Some (js ''Invalid URL''))), fetch = (\<lambda>u. Throws None) \<rparr>"]
    by blast
qed

text \<open>
  C10 (corrected). The claim: a paragraph span whose content holds a newline before the
  tag that ends it adds no word, so that the words of a paragraph of several lines are
  never counted. In \<^verbatim>\<open><p>a\<close>, newline, \<^verbatim>\<open><p class=x>b c d</p>\<close> the span of the
  first \<^verbatim>\<open><p>\<close> runs to \<^verbatim>\<open></p>\<close> and holds the newline, no \<^verbatim>\<open><p>\<close> or
  \<^verbatim>\<open></p>\<close> starts inside it, and the count is 3: the pattern matches from
  \<^verbatim>\<open><p class=x>\<close> on, inside the span.
\<close>

theorem multiline_paragraph_counterexample:
  \<open>list_ex line_terminator (js ''a'' @ [0x0A] @ js ''<p class=x>b c d'') \<and>
   terminator_free (js ''a'' @ [0x0A] @ js ''<p class=x>b c d'') (js ''</p>'') \<and>
   countWordsInPTags
     (js ''<p>'' @ (js ''a'' @ [0x0A] @ js ''<p class=x>b c d'') @ js ''</p>'') = 3\<close>
  by code_simp

text \<open>
  C10 as amended: at an opening tag \<^verbatim>\<open><p ...>\<close> followed by \<open>inner\<close>, where
  \<open>inner\<close> holds a line terminator (the newline is one) and no \<^verbatim>\<open><p>\<close> or
  \<^verbatim>\<open></p>\<close> starts inside it, the pattern does not match. When, besides, no
  \<^verbatim>\<open><p\<close> starts inside \<open>inner\<close>, the span adds no word: the count of the text from
  the opening tag on is the count of the text from the end of \<open>inner\<close> on.
\<close>

theorem multiline_paragraph_adds_nothing:
  assumes tag: "map canonicalize tag = map canonicalize (js ''<p'')"
    and attrs: "0x3E \<notin> set attrs"
    and newline: "list_ex line_terminator inner"
    and free: "terminator_free inner rest"
  shows "matcher True p_regex (tag @ attrs @ 0x3E # inner @ rest) = None \<and>
         (opening_free inner rest \<longrightarrow>
            countWordsInPTags (tag @ attrs @ 0x3E # inner @ rest) = countWordsInPTags rest)"
proof -
  define P where "P = tag @ attrs"
  define s where "s = P @ 0x3E # inner @ rest"
  define n where "n = length P + 1 + length inner"
  have "0x3E \<notin> set tag"
    by (rule folded_has_not [OF tag]) (simp_all add: js_def)
  with attrs have P: "0x3E \<notin> set P" by (simp add: P_def)
  have none: "matcher True p_regex s = None"
    unfolding s_def by (rule p_span_none [OF P newline free])
  have count: "countWordsInPTags s = countWordsInPTags rest" if open_free: "opening_free inner rest"
  proof -
    have fail: "matcher True p_regex (drop j s) = None" if j: "j < n" for j
    proof (cases "j \<le> length P")
      case True
      then have d: "drop j s = drop j P @ 0x3E # inner @ rest" by (simp add: s_def)
      have "0x3E \<notin> set (drop j P)"
        using P in_set_dropD [of "0x3E" j P] by blast
      from p_span_none [OF this newline free] d show ?thesis by simp
    next
      case False
      define k where "k = j - (length P + 1)"
      with False j have k: "k < length inner" and jk: "j = length P + 1 + k"
        by (simp_all add: n_def)
      have d: "drop j s = drop k inner @ rest"
        unfolding jk s_def using k by (simp add: drop_Cons')
      from k obtain c cs where cs: "drop k inner = c # cs" by (cases "drop k inner") auto
      then have "inner = take k inner @ c # cs"
        using append_take_drop_id [of k inner] by simp
      with open_free have "\<not> opening_at (c # cs @ rest)"
        using opening_free_drop [of "take k inner" c cs rest] by simp
      with d cs have "\<not> opening_at (drop j s)" by simp
      then show ?thesis using p_match_opening by blast
    qed
    have "n \<le> length s" by (simp add: n_def s_def)
    with fail have "search True p_regex s = search True p_regex (drop n s)"
      using search_skip [of n True p_regex s] by blast
    moreover have "drop n s = rest" by (simp add: n_def s_def)
    ultimately have "search True p_regex s = search True p_regex rest" by simp
    then have "count_loop s 0 = count_loop rest 0"
      using count_loop.simps [of s 0] count_loop.simps [of rest 0] by simp
    then show ?thesis by (simp add: countWordsInPTags_def)
  qed
  from none count show ?thesis by (simp add: s_def P_def)
qed

theorem multiline_paragraph_adds_nothing_witness:
  \<open>map canonicalize (js ''<P'') = map canonicalize (js ''<p'') \<and>
   0x3E \<notin> set (js '' class="a"'') \<and>
   list_ex line_terminator (js ''hello'' @ [0x0A] @ js ''<b>world</b>'') \<and>
   terminator_free (js ''hello'' @ [0x0A] @ js ''<b>world</b>'') (js ''</p><p>x y</p>'') \<and>
   opening_free (js ''hello'' @ [0x0A] @ js ''<b>world</b>'') (js ''</p><p>x y</p>'') \<and>
   matcher True p_regex
     (js ''<P'' @ js '' class="a"'' @ 0x3E # (js ''hello'' @ [0x0A] @ js ''<b>world</b>'') @
      js ''</p><p>x y</p>'') = None \<and>
   countWordsInPTags
     (js ''<P'' @ js '' class="a"'' @ 0x3E # (js ''hello'' @ [0x0A] @ js ''<b>world</b>'') @
      js ''</p><p>x y</p>'') = countWordsInPTags (js ''</p><p>x y</p>'') \<and>
   countWordsInPTags (js ''</p><p>x y</p>'') = 2\<close>
proof -
  have a: "map canonicalize (js ''<P'') = map canonicalize (js ''<p'')" by code_simp
  have b: \<open>0x3E \<notin> set (js '' class="a"'')\<close> by code_simp
  have c: "list_ex line_terminator (js ''hello'' @ [0x0A] @ js ''<b>world</b>'')" by code_simp
  have d: "terminator_free (js ''hello'' @ [0x0A] @ js ''<b>world</b>'') (js ''</p><p>x y</p>'')"
    by code_simp
  have e: "opening_free (js ''hello'' @ [0x0A] @ js ''<b>world</b>'') (js ''</p><p>x y</p>'')"
    by code_simp
  have f: "countWordsInPTags (js ''</p><p>x y</p>'') = 2" by code_simp
  show ?thesis
    using a b c d e f multiline_paragraph_adds_nothing [OF a b c d] by blast
qed

end
